theory Spec2Isabelle
  imports Main
begin

section \<open>Python strings\<close>

text \<open>
  A Python \<open>str\<close> is a sequence of Unicode code points, so a character is a natural
  number and a string a list of them.  ASCII literals of the source are written with
  \<open>str\<close>; the Arabic label of the third pattern is given by its code points.
\<close>

type_synonym pychar = nat
type_synonym pystr = "nat list"

definition str :: "string \<Rightarrow> pystr" where
  "str cs = map of_char cs"

text \<open>
  The Unicode character database is not part of the repository.  The two large tables the
  program reads through the \<open>re\<close> module, the decimal digits (\<open>\d\<close>) and the alphanumerics
  (\<open>\w\<close>), are fixed here on ASCII and taken from a parameter beyond it.
\<close>

record unicode_db =
  isdecimal :: "pychar \<Rightarrow> bool"
  isalnum :: "pychar \<Rightarrow> bool"

definition ascii_db :: unicode_db where
  "ascii_db = \<lparr>isdecimal = (\<lambda>c. False), isalnum = (\<lambda>c. False)\<rparr>"

text \<open>\<open>str.isspace\<close>, which is also the class \<open>\s\<close> of a \<open>str\<close> pattern: 29 code points.\<close>

definition isspace :: "pychar \<Rightarrow> bool" where
  "isspace c \<longleftrightarrow>
     (9 \<le> c \<and> c \<le> 13) \<or> (28 \<le> c \<and> c \<le> 32) \<or> c = 133 \<or> c = 160 \<or> c = 5760 \<or>
     (8192 \<le> c \<and> c \<le> 8202) \<or> c = 8232 \<or> c = 8233 \<or> c = 8239 \<or> c = 8287 \<or> c = 12288"

definition is_digit :: "unicode_db \<Rightarrow> pychar \<Rightarrow> bool" where
  "is_digit u c = (if c < 128 then 48 \<le> c \<and> c \<le> 57 else isdecimal u c)"

definition is_word :: "unicode_db \<Rightarrow> pychar \<Rightarrow> bool" where
  "is_word u c =
     (if c < 128
      then (48 \<le> c \<and> c \<le> 57) \<or> (65 \<le> c \<and> c \<le> 90) \<or> (97 \<le> c \<and> c \<le> 122) \<or> c = 95
      else isalnum u c)"

text \<open>\<open>text.strip()\<close>: leading and trailing whitespace removed.\<close>

definition strip :: "pystr \<Rightarrow> pystr" where
  "strip s = rev (dropWhile isspace (rev (dropWhile isspace s)))"

section \<open>The fragment of \<open>re\<close> the program uses\<close>

text \<open>
  The four patterns of the source are built from literal characters, character sets, the
  classes \<open>\s\<close>, \<open>\d\<close>, \<open>\w\<close>, the greedy quantifiers \<open>*\<close>, \<open>+\<close>, \<open>?\<close> applied to a
  single-character matcher, and one capture group.  A pattern is the list of its nodes.
\<close>

datatype item = Ch pychar | Rng pychar pychar | Cat_space | Cat_digit | Cat_word

datatype atom = Lit pychar | In_set "item list" | Not_in_set "item list"

datatype node = One atom | Star atom | Plus atom | Opt atom | Group_open | Group_close

type_synonym regex = "node list"

text \<open>
  Case folding as the matching engine does it under \<open>re.IGNORECASE\<close>, for the characters
  that can meet an ASCII letter: the engine lowers the text character, and compares it
  with the lowered pattern character and with the characters that share its upper case
  (dotless i with i, long s with s).  U+0130 lowers to i and the Kelvin sign U+212A to k.
  Characters without case, such as the Arabic letters, are their own lower case.
\<close>

definition sre_lower :: "pychar \<Rightarrow> pychar" where
  "sre_lower c =
     (if 65 \<le> c \<and> c \<le> 90 then c + 32
      else if c = 304 then 105
      else if c = 8490 then 107
      else c)"

definition sre_upper :: "pychar \<Rightarrow> pychar" where
  "sre_upper c =
     (if 97 \<le> c \<and> c \<le> 122 then c - 32
      else if c = 305 then 73
      else if c = 383 then 83
      else c)"

definition literal_match :: "bool \<Rightarrow> pychar \<Rightarrow> pychar \<Rightarrow> bool" where
  "literal_match ignorecase c t =
     (if ignorecase
      then sre_lower t = sre_lower c \<or> sre_upper (sre_lower t) = sre_upper (sre_lower c)
      else t = c)"

fun item_match :: "unicode_db \<Rightarrow> bool \<Rightarrow> item \<Rightarrow> pychar \<Rightarrow> bool" where
  "item_match u ignorecase (Ch c) t = literal_match ignorecase c t"
| "item_match u ignorecase (Rng lo hi) t =
     ((lo \<le> t \<and> t \<le> hi) \<or>
      (ignorecase \<and>
        ((lo \<le> sre_lower t \<and> sre_lower t \<le> hi) \<or>
         (lo \<le> sre_upper (sre_lower t) \<and> sre_upper (sre_lower t) \<le> hi))))"
| "item_match u ignorecase Cat_space t = isspace t"
| "item_match u ignorecase Cat_digit t = is_digit u t"
| "item_match u ignorecase Cat_word t = is_word u t"

fun atom_match :: "unicode_db \<Rightarrow> bool \<Rightarrow> atom \<Rightarrow> pychar \<Rightarrow> bool" where
  "atom_match u ignorecase (Lit c) t = literal_match ignorecase c t"
| "atom_match u ignorecase (In_set items) t = (\<exists>i \<in> set items. item_match u ignorecase i t)"
| "atom_match u ignorecase (Not_in_set items) t = (\<not> (\<exists>i \<in> set items. item_match u ignorecase i t))"

text \<open>
  Backtracking match of a pattern at the start of \<open>s\<close>.  The two further arguments are
  the input as it stood where the group opened and where it closed; the result gives
  both and the input left after the match.  A greedy quantifier first takes one more
  character and gives it back when the rest of the pattern then fails.
\<close>

fun match_here :: "unicode_db \<Rightarrow> bool \<Rightarrow> regex \<Rightarrow> pystr \<Rightarrow> pystr \<Rightarrow> pystr \<Rightarrow>
    (pystr \<times> pystr \<times> pystr) option" where
  "match_here u ic [] s go gc = Some (go, gc, s)"
| "match_here u ic (Group_open # r) s go gc = match_here u ic r s s gc"
| "match_here u ic (Group_close # r) s go gc = match_here u ic r s go s"
| "match_here u ic (One a # r) [] go gc = None"
| "match_here u ic (One a # r) (t # ts) go gc =
     (if atom_match u ic a t then match_here u ic r ts go gc else None)"
| "match_here u ic (Plus a # r) [] go gc = None"
| "match_here u ic (Plus a # r) (t # ts) go gc =
     (if atom_match u ic a t then match_here u ic (Star a # r) ts go gc else None)"
| "match_here u ic (Star a # r) [] go gc = match_here u ic r [] go gc"
| "match_here u ic (Star a # r) (t # ts) go gc =
     (if atom_match u ic a t
      then (case match_here u ic (Star a # r) ts go gc of
              Some m \<Rightarrow> Some m
            | None \<Rightarrow> match_here u ic r (t # ts) go gc)
      else match_here u ic r (t # ts) go gc)"
| "match_here u ic (Opt a # r) [] go gc = match_here u ic r [] go gc"
| "match_here u ic (Opt a # r) (t # ts) go gc =
     (if atom_match u ic a t
      then (case match_here u ic r ts go gc of
              Some m \<Rightarrow> Some m
            | None \<Rightarrow> match_here u ic r (t # ts) go gc)
      else match_here u ic r (t # ts) go gc)"

text \<open>The text of the capture group: what was consumed between its two marks.\<close>

definition group1 :: "pystr \<times> pystr \<times> pystr \<Rightarrow> pystr" where
  "group1 m = (case m of (go, gc, rest) \<Rightarrow> take (length go - length gc) go)"

text \<open>
  \<open>re.findall\<close> for a pattern with one group: the group of every match, scanning from
  left to right, each search starting where the previous match ended (one character
  further after an empty match).
\<close>

function findall :: "unicode_db \<Rightarrow> bool \<Rightarrow> regex \<Rightarrow> pystr \<Rightarrow> pystr list" where
  "findall u ic r [] =
     (case match_here u ic r [] [] [] of None \<Rightarrow> [] | Some m \<Rightarrow> [group1 m])"
| "findall u ic r (t # ts) =
     (case match_here u ic r (t # ts) (t # ts) (t # ts) of
        None \<Rightarrow> findall u ic r ts
      | Some m \<Rightarrow>
          group1 m #
          findall u ic r
            (if length (snd (snd m)) < length (t # ts) then snd (snd m) else ts))"
  by pat_completeness auto
termination
  by (relation "measure (\<lambda>(u, ic, r, s). length s)") auto

text \<open>
  \<open>re.sub\<close> with a constant replacement: every match is replaced, the text between
  matches is kept.
\<close>

function re_sub :: "unicode_db \<Rightarrow> bool \<Rightarrow> regex \<Rightarrow> pystr \<Rightarrow> pystr \<Rightarrow> pystr" where
  "re_sub u ic r repl [] =
     (case match_here u ic r [] [] [] of None \<Rightarrow> [] | Some m \<Rightarrow> repl)"
| "re_sub u ic r repl (t # ts) =
     (case match_here u ic r (t # ts) (t # ts) (t # ts) of
        None \<Rightarrow> t # re_sub u ic r repl ts
      | Some m \<Rightarrow>
          (if length (snd (snd m)) < length (t # ts)
           then repl @ re_sub u ic r repl (snd (snd m))
           else repl @ t # re_sub u ic r repl ts))"
  by pat_completeness auto
termination
  by (relation "measure (\<lambda>(u, ic, r, repl, s). length s)") auto

section \<open>The identifier patterns\<close>

text \<open>
  \<^verbatim>\<open>RECEIPT\s*NO[.:]?\s*([A-Z0-9]+[\(\d+\)]?)\<close>,
  \<^verbatim>\<open>FCR\s*NO[.:]?\s*([A-Z0-9]+)\<close> and the Arabic label
  (U+0631 U+0642 U+0645, \<^verbatim>\<open>\s*\<close>, U+0627 U+0644 U+0625 U+064A U+0635 U+0627 U+0644)
  followed by \<^verbatim>\<open>[\s:]*([A-Z0-9]+)\<close>.
\<close>

definition lits :: "pystr \<Rightarrow> regex" where
  "lits cs = map (\<lambda>c. One (Lit c)) cs"

definition alnum_token :: atom where
  "alnum_token = In_set [Rng 65 90, Rng 48 57]"

definition patterns :: "regex list" where
  "patterns =
    [ lits (str ''RECEIPT'') @ [Star (In_set [Cat_space])] @ lits (str ''NO'') @
        [Opt (In_set [Ch 46, Ch 58]), Star (In_set [Cat_space]),
         Group_open, Plus alnum_token, Opt (In_set [Ch 40, Cat_digit, Ch 43, Ch 41]),
         Group_close],
      lits (str ''FCR'') @ [Star (In_set [Cat_space])] @ lits (str ''NO'') @
        [Opt (In_set [Ch 46, Ch 58]), Star (In_set [Cat_space]),
         Group_open, Plus alnum_token, Group_close],
      lits [1585, 1602, 1605] @ [Star (In_set [Cat_space])] @
        lits [1575, 1604, 1573, 1610, 1589, 1575, 1604] @
        [Star (In_set [Cat_space, Ch 58]), Group_open, Plus alnum_token, Group_close] ]"

text \<open>
  The loop over the patterns: the first pattern with a match decides, and the group of
  its first match is the identifier (\<open>found_fcr\<close>); \<open>None\<close> when no pattern matches.
\<close>

fun search_patterns :: "unicode_db \<Rightarrow> regex list \<Rightarrow> pystr \<Rightarrow> pystr option" where
  "search_patterns u [] text = None"
| "search_patterns u (pattern # rest) text =
     (case findall u True pattern text of
        [] \<Rightarrow> search_patterns u rest text
      | m # ms \<Rightarrow> Some m)"

section \<open>Text of one page\<close>

text \<open>
  The PDF parser, the rasteriser and the recogniser are libraries outside the
  repository.  A page is given by what they do for it: each call either returns or
  raises.  A raised failure is an instance of \<open>Exception\<close> (what these libraries raise),
  kept as its message \<open>str(e)\<close>.  The \<open>with\<close> block that writes the single-page temporary
  file is one step.  The log lists the calls made to the rasteriser and the recogniser,
  with the arguments the source passes, and the messages shown with \<open>st.error\<close>.
\<close>

datatype exc = Exception pystr

type_synonym image = nat

record page =
  extract_text :: "exc + pystr"
  write_temp :: "exc option"
  convert_from_path :: "nat \<Rightarrow> string \<Rightarrow> exc + image list"
  image_to_string :: "image \<Rightarrow> string \<Rightarrow> exc + pystr"

datatype event =
    Call_convert_from_path nat string
  | Call_image_to_string image string
  | St_error pystr

definition on_exception :: "event list \<Rightarrow> exc \<Rightarrow> pystr \<times> event list" where
  "on_exception log e =
     (case e of Exception msg \<Rightarrow> ([], log @ [St_error (str ''Error extracting text: '' @ msg)]))"

definition extract_text_from_page :: "page \<Rightarrow> pystr \<times> event list" where
  "extract_text_from_page p =
     (case extract_text p of
        Inl e \<Rightarrow> on_exception [] e
      | Inr text \<Rightarrow>
          if text \<noteq> [] \<and> strip text \<noteq> [] then (text, [])
          else
            (case write_temp p of
               Some e \<Rightarrow> on_exception [] e
             | None \<Rightarrow>
                 (case convert_from_path p 300 ''jpeg'' of
                    Inl e \<Rightarrow> on_exception [Call_convert_from_path 300 ''jpeg''] e
                  | Inr images \<Rightarrow>
                      (case images of
                         img # others \<Rightarrow>
                           (case image_to_string p img ''eng+ara'' of
                              Inl e \<Rightarrow>
                                on_exception
                                  [Call_convert_from_path 300 ''jpeg'',
                                   Call_image_to_string img ''eng+ara''] e
                            | Inr recognised \<Rightarrow>
                                (recognised,
                                 [Call_convert_from_path 300 ''jpeg'',
                                  Call_image_to_string img ''eng+ara'']))
                       | [] \<Rightarrow> ([], [Call_convert_from_path 300 ''jpeg''])))))"

section \<open>Page ranges\<close>

text \<open>
  \<open>fcr_ranges\<close> is a Python dict, which keeps its keys in the order of their first
  insertion: assigning to a key that is present replaces the value where it stands,
  assigning to a new key appends.  Page numbers are Python integers.
\<close>

type_synonym range_map = "(pystr \<times> int \<times> int) list"

fun dict_set :: "'k \<Rightarrow> 'v \<Rightarrow> ('k \<times> 'v) list \<Rightarrow> ('k \<times> 'v) list" where
  "dict_set k v [] = [(k, v)]"
| "dict_set k v ((k', v') # d) = (if k' = k then (k, v) # d else (k', v') # dict_set k v d)"

record seg_state =
  fcr_ranges :: range_map
  current_fcr :: "pystr option"
  start_page :: int
  shown :: "event list"

definition truthy :: "pystr option \<Rightarrow> bool" where
  "truthy v = (case v of None \<Rightarrow> False | Some s \<Rightarrow> s \<noteq> [])"

text \<open>The body of the loop over the pages, for page \<open>page_num\<close>.\<close>

definition visit_page :: "unicode_db \<Rightarrow> int \<Rightarrow> int \<Rightarrow> page \<Rightarrow> seg_state \<Rightarrow> seg_state" where
  "visit_page u total_pages page_num p s =
     (case extract_text_from_page p of (text, log) \<Rightarrow>
        let s0 = s\<lparr>shown := shown s @ log\<rparr> in
        if text = [] then s0
        else
          let found_fcr = search_patterns u patterns text;
              s1 = (if truthy found_fcr \<and> found_fcr \<noteq> current_fcr s0
                    then (case current_fcr s0 of
                            None \<Rightarrow> s0
                          | Some cur \<Rightarrow>
                              s0\<lparr>fcr_ranges :=
                                   dict_set cur (start_page s0, page_num - 1) (fcr_ranges s0)\<rparr>)
                         \<lparr>current_fcr := found_fcr, start_page := page_num\<rparr>
                    else s0)
          in (case current_fcr s1 of
                Some cur \<Rightarrow>
                  if page_num = total_pages - 1
                  then s1\<lparr>fcr_ranges := dict_set cur (start_page s1, page_num) (fcr_ranges s1)\<rparr>
                  else s1
              | None \<Rightarrow> s1))"

fun visit_pages :: "unicode_db \<Rightarrow> int \<Rightarrow> int \<Rightarrow> page list \<Rightarrow> seg_state \<Rightarrow> seg_state" where
  "visit_pages u total_pages page_num [] s = s"
| "visit_pages u total_pages page_num (p # ps) s =
     visit_pages u total_pages (page_num + 1) ps (visit_page u total_pages page_num p s)"

definition initial :: seg_state where
  "initial = \<lparr>fcr_ranges = [], current_fcr = None, start_page = 0, shown = []\<rparr>"

definition find_fcr_ranges :: "unicode_db \<Rightarrow> page list \<Rightarrow> range_map" where
  "find_fcr_ranges u pages =
     fcr_ranges (visit_pages u (int (length pages)) 0 pages initial)"

section \<open>Splitting and packaging\<close>

text \<open>
  \<open>reader.pages[i]\<close> with Python's indexing: a negative index counts from the end, an
  index outside the document raises \<open>IndexError\<close>.
\<close>

datatype py_error = IndexError | FileNotFoundError

definition pages_get :: "page list \<Rightarrow> int \<Rightarrow> py_error + page" where
  "pages_get pages i =
     (if 0 \<le> i \<and> i < int (length pages) then Inr (pages ! nat i)
      else if i < 0 \<and> - int (length pages) \<le> i then Inr (pages ! nat (int (length pages) + i))
      else Inl IndexError)"

fun add_pages :: "page list \<Rightarrow> int list \<Rightarrow> page list \<Rightarrow> py_error + page list" where
  "add_pages pages [] writer = Inr writer"
| "add_pages pages (page_num # rest) writer =
     (case pages_get pages page_num of
        Inl e \<Rightarrow> Inl e
      | Inr p \<Rightarrow> add_pages pages rest (writer @ [p]))"

text \<open>\<^verbatim>\<open>re.sub(r'[^\w\-_\. ]', '_', str(fcr_num))\<close> and the file name made of it.\<close>

definition clean_fcr_num :: "unicode_db \<Rightarrow> pystr \<Rightarrow> pystr" where
  "clean_fcr_num u fcr_num =
     re_sub u False [One (Not_in_set [Cat_word, Ch 45, Ch 95, Ch 46, Ch 32])] (str ''_'') fcr_num"

definition file_name :: "unicode_db \<Rightarrow> pystr \<Rightarrow> pystr" where
  "file_name u fcr_num = str ''FCR_'' @ clean_fcr_num u fcr_num @ str ''.pdf''"

text \<open>
  A path made by \<open>os.path.join(output_dir, name)\<close> is the pair of its two parts.  The
  disk is the list of the files written, oldest first; a later write to the same path
  replaces the earlier file.
\<close>

type_synonym path = "pystr \<times> pystr"

record split_state =
  output_files :: "(pystr \<times> path) list"
  written :: "(path \<times> page list) list"

fun split_entries :: "unicode_db \<Rightarrow> page list \<Rightarrow> pystr \<Rightarrow> range_map \<Rightarrow> split_state \<Rightarrow>
    py_error + split_state" where
  "split_entries u pages output_dir [] st = Inr st"
| "split_entries u pages output_dir ((fcr_num, (start, end)) # rest) st =
     (let output_path = (output_dir, file_name u fcr_num) in
      case add_pages pages [start..end] [] of
        Inl e \<Rightarrow> Inl e
      | Inr writer \<Rightarrow>
          split_entries u pages output_dir rest
            \<lparr>output_files = output_files st @ [(file_name u fcr_num, output_path)],
             written = written st @ [(output_path, writer)]\<rparr>)"

definition split_pdf_by_fcr_ranges :: "unicode_db \<Rightarrow> page list \<Rightarrow> range_map \<Rightarrow> pystr \<Rightarrow>
    py_error + split_state" where
  "split_pdf_by_fcr_ranges u pages ranges output_dir =
     split_entries u pages output_dir ranges \<lparr>output_files = [], written = []\<rparr>"

definition read_file :: "(path \<times> page list) list \<Rightarrow> path \<Rightarrow> page list option" where
  "read_file disk f = map_of (rev disk) f"

text \<open>The archive: one entry per pair, named \<open>arcname\<close>, holding the file as it is on disk.\<close>

fun create_zip :: "(path \<times> page list) list \<Rightarrow> (pystr \<times> path) list \<Rightarrow>
    py_error + (pystr \<times> page list) list" where
  "create_zip disk [] = Inr []"
| "create_zip disk ((filename, filepath) # rest) =
     (case read_file disk filepath of
        None \<Rightarrow> Inl FileNotFoundError
      | Some doc \<Rightarrow>
          (case create_zip disk rest of
             Inl e \<Rightarrow> Inl e
           | Inr entries \<Rightarrow> Inr ((filename, doc) # entries)))"

section \<open>Notions the properties are stated with\<close>

text \<open>What the loop sees of a page: its text, and the identifier found in a non-empty text.\<close>

definition page_text :: "page \<Rightarrow> pystr" where
  "page_text p = fst (extract_text_from_page p)"

definition observed :: "unicode_db \<Rightarrow> page \<Rightarrow> pystr option" where
  "observed u p =
     (if page_text p = [] then None
      else case search_patterns u patterns (page_text p) of
             None \<Rightarrow> None
           | Some f \<Rightarrow> if f = [] then None else Some f)"

text \<open>The identifiers detected on the pages, in page order.\<close>

fun detections :: "unicode_db \<Rightarrow> page list \<Rightarrow> pystr list" where
  "detections u [] = []"
| "detections u (p # ps) =
     (case observed u p of None \<Rightarrow> detections u ps | Some f \<Rightarrow> f # detections u ps)"

text \<open>The index of the first page with an identifier, counting from \<open>i\<close>.\<close>

fun first_detected :: "unicode_db \<Rightarrow> int \<Rightarrow> page list \<Rightarrow> int option" where
  "first_detected u i [] = None"
| "first_detected u i (p # ps) =
     (case observed u p of None \<Rightarrow> first_detected u (i + 1) ps | Some f \<Rightarrow> Some i)"

definition in_range :: "int \<Rightarrow> pystr \<times> int \<times> int \<Rightarrow> bool" where
  "in_range i e = (case e of (k, a, b) \<Rightarrow> a \<le> i \<and> i \<le> b)"

definition covered :: "range_map \<Rightarrow> int \<Rightarrow> bool" where
  "covered ranges i = list_ex (in_range i) ranges"


text \<open>Pages \<open>a\<close> to \<open>b\<close> of a document, both included.\<close>

definition slice :: "page list \<Rightarrow> int \<Rightarrow> int \<Rightarrow> page list" where
  "slice pages a b = map (\<lambda>i. pages ! nat i) [a..b]"



text \<open>
  \<open>re.search\<close>: the group of the leftmost match, the first match anywhere in the text.
\<close>

fun first_match :: "unicode_db \<Rightarrow> bool \<Rightarrow> regex \<Rightarrow> pystr \<Rightarrow> pystr option" where
  "first_match u ic r [] = map_option group1 (match_here u ic r [] [] [])"
| "first_match u ic r (t # ts) =
     (case match_here u ic r (t # ts) (t # ts) (t # ts) of
        None \<Rightarrow> first_match u ic r ts
      | Some m \<Rightarrow> Some (group1 m))"

text \<open>The group of the match that starts at position \<open>k\<close> of the text, if there is one.\<close>

definition matches_at :: "unicode_db \<Rightarrow> bool \<Rightarrow> regex \<Rightarrow> pystr \<Rightarrow> nat \<Rightarrow> pystr option" where
  "matches_at u ic r s k = map_option group1 (match_here u ic r (drop k s) (drop k s) (drop k s))"

text \<open>The safe set of file names: word characters, hyphen, underscore, period, space.\<close>

definition safe_char :: "unicode_db \<Rightarrow> pychar \<Rightarrow> bool" where
  "safe_char u c \<longleftrightarrow> is_word u c \<or> c = 45 \<or> c = 95 \<or> c = 46 \<or> c = 32"

definition is_ocr_call :: "event \<Rightarrow> bool" where
  "is_ocr_call e = (case e of Call_image_to_string img lang \<Rightarrow> True | _ \<Rightarrow> False)"

subsection \<open>Example pages\<close>

text \<open>A page with a text layer, and a scanned page: no text layer, one image, recognised text.\<close>

definition text_page :: "pystr \<Rightarrow> page" where
  "text_page t =
     \<lparr>extract_text = Inr t, write_temp = None,
      convert_from_path = (\<lambda>dpi fmt. Inr []),
      image_to_string = (\<lambda>img lang. Inr [])\<rparr>"

definition scanned_page :: "pystr \<Rightarrow> pystr \<Rightarrow> page" where
  "scanned_page layer t =
     \<lparr>extract_text = Inr layer, write_temp = None,
      convert_from_path =
        (\<lambda>dpi fmt. if dpi = 300 \<and> fmt = ''jpeg'' then Inr [7] else Inl (Exception (str ''dpi''))),
      image_to_string =
        (\<lambda>img lang. if img = 7 \<and> lang = ''eng+ara'' then Inr t else Inl (Exception (str ''lang'')))\<rparr>"

text \<open>Pages on which one step fails, the steps before it succeeding.\<close>

definition failing_page :: "nat \<Rightarrow> page" where
  "failing_page step =
     \<lparr>extract_text = (if step = 0 then Inl (Exception (str ''parse'')) else Inr (str '' '')),
      write_temp = (if step = 1 then Some (Exception (str ''disk'')) else None),
      convert_from_path =
        (\<lambda>dpi fmt. if step = 2 then Inl (Exception (str ''poppler'')) else Inr [7]),
      image_to_string =
        (\<lambda>img lang. if step = 3 then Inl (Exception (str ''tesseract'')) else Inr (str ''FCR NO: Z9''))\<rparr>"

text \<open>A page whose text layer is blank and for which the rasteriser returns no image.\<close>

definition no_image_page :: page where
  "no_image_page =
     \<lparr>extract_text = Inr (str '' ''), write_temp = None,
      convert_from_path = (\<lambda>dpi fmt. Inr []),
      image_to_string = (\<lambda>img lang. Inr (str ''FCR NO: Z9''))\<rparr>"

subsection \<open>Invariants of the loop over the pages\<close>

text \<open>Every range lies in the pages before \<open>bound\<close> and has its start before its end.\<close>

definition well_ranged :: "int \<Rightarrow> range_map \<Rightarrow> bool" where
  "well_ranged bound ranges \<longleftrightarrow> (\<forall>(k, a, b) \<in> set ranges. 0 \<le> a \<and> a \<le> b \<and> b < bound)"

definition disjoint_ranges :: "range_map \<Rightarrow> bool" where
  "disjoint_ranges ranges \<longleftrightarrow>
     (\<forall>(k1, a1, b1) \<in> set ranges. \<forall>(k2, a2, b2) \<in> set ranges. k1 \<noteq> k2 \<longrightarrow> b1 < a2 \<or> b2 < a1)"

text \<open>
  Before page \<open>i\<close>: the keys are distinct, and when a range is open it started on an
  earlier page and every range written so far ends before that start.
\<close>

definition seg_inv :: "int \<Rightarrow> seg_state \<Rightarrow> bool" where
  "seg_inv i s \<longleftrightarrow>
     distinct (map fst (fcr_ranges s)) \<and> disjoint_ranges (fcr_ranges s) \<and>
     (case current_fcr s of
        None \<Rightarrow> fcr_ranges s = []
      | Some c \<Rightarrow>
          0 \<le> start_page s \<and> start_page s < i \<and> well_ranged (start_page s) (fcr_ranges s))"

text \<open>The ranges come in the order of the pages: each ends before the next starts.\<close>

definition ascending :: "range_map \<Rightarrow> bool" where
  "ascending ranges = sorted_wrt (\<lambda>e1 e2. snd (snd e1) < fst (snd e2)) ranges"

text \<open>
  No identifier comes back after another one was detected: the identifiers of the
  pages, with repetitions on neighbouring detections merged, are all different.
\<close>

definition no_reappearance :: "unicode_db \<Rightarrow> page list \<Rightarrow> bool" where
  "no_reappearance u pages = distinct (remdups_adj (detections u pages))"

text \<open>
  Before page \<open>i\<close>, with the pages \<open>ps\<close> still to come and no identifier coming back: no
  key of the map and no identifier closed so far is detected again.
\<close>

definition strong_inv :: "unicode_db \<Rightarrow> int \<Rightarrow> seg_state \<Rightarrow> page list \<Rightarrow> bool" where
  "strong_inv u i s ps \<longleftrightarrow>
     seg_inv i s \<and> ascending (fcr_ranges s) \<and>
     fst ` set (fcr_ranges s) \<inter> set (detections u ps) = {} \<and>
     (case current_fcr s of
        None \<Rightarrow> distinct (remdups_adj (detections u ps))
      | Some c \<Rightarrow>
          c \<notin> fst ` set (fcr_ranges s) \<and> distinct (remdups_adj (c # detections u ps)))"

text \<open>A range is open and the pages from \<open>f\<close> up to its start are all in some range.\<close>

definition gap_free :: "int \<Rightarrow> seg_state \<Rightarrow> bool" where
  "gap_free f s \<longleftrightarrow>
     current_fcr s \<noteq> None \<and> f \<le> start_page s \<and>
     (\<forall>j. f \<le> j \<and> j < start_page s \<longrightarrow> covered (fcr_ranges s) j)"

text \<open>What holds of the map that is returned for a document of \<open>n\<close> pages.\<close>

definition range_post :: "int \<Rightarrow> range_map \<Rightarrow> bool" where
  "range_post n ranges \<longleftrightarrow>
     distinct (map fst ranges) \<and> disjoint_ranges ranges \<and> well_ranged n ranges"

subsection \<open>Example documents\<close>

definition scenario_a :: "page list" where
  "scenario_a =
     [text_page (str ''FCR NO: X''), text_page (str ''FCR NO: X''), text_page (str ''FCR NO: Y''),
      text_page (str ''no label''), scanned_page [] (str ''FCR NO: Y'')]"

definition scenario_c :: "page list" where
  "scenario_c =
     [text_page (str ''FCR NO: A''), text_page (str ''FCR NO: B''), text_page (str ''FCR NO: A'')]"

definition scenario_gap :: "page list" where
  "scenario_gap =
     [text_page (str ''cover sheet''), text_page (str ''FCR NO: A''), text_page (str ''FCR NO: B'')]"

text \<open>Two pages whose identifiers differ only in a character outside the safe set.\<close>

definition scenario_collision :: "page list" where
  "scenario_collision =
     [text_page (str ''RECEIPT NO: AB(''), text_page (str ''RECEIPT NO: AB)'')]"

section \<open>Evaluation on concrete inputs\<close>

lemmas class_simps =
  literal_match_def sre_lower_def sre_upper_def isspace_def is_digit_def is_word_def

lemmas pattern_simps = patterns_def lits_def str_def alnum_token_def group1_def

lemmas page_simps =
  text_page_def scanned_page_def failing_page_def no_image_page_def
  extract_text_from_page_def on_exception_def strip_def

lemmas segment_simps = find_fcr_ranges_def visit_page_def initial_def truthy_def Let_def

lemma strip_Nil: "strip [] = []"
  by (simp add: strip_def)

section \<open>The identifier matcher\<close>

lemma first_match_findall:
  "first_match u ic r s = (case findall u ic r s of [] \<Rightarrow> None | m # ms \<Rightarrow> Some m)"
  by (induction s) (auto split: option.splits list.splits)

text \<open>
  \<open>first_match\<close> is the match at the least position of the text at which the pattern
  matches, and it is \<open>None\<close> exactly when the pattern matches at no position.
\<close>

lemma matches_at_Cons_Suc: "matches_at u ic r (t # ts) (Suc k) = matches_at u ic r ts k"
  by (simp add: matches_at_def)

lemma first_match_None_iff:
  "first_match u ic r s = None \<longleftrightarrow> (\<forall>k \<le> length s. matches_at u ic r s k = None)"
proof (induction s)
  case Nil
  show ?case by (simp add: matches_at_def)
next
  case (Cons t ts)
  have split: "(\<forall>k \<le> length (t # ts). matches_at u ic r (t # ts) k = None) \<longleftrightarrow>
      matches_at u ic r (t # ts) 0 = None \<and> (\<forall>k \<le> length ts. matches_at u ic r ts k = None)"
    (is "?L \<longleftrightarrow> ?R")
  proof
    assume l: ?L
    have "matches_at u ic r ts k = None" if "k \<le> length ts" for k
      using l [rule_format, of "Suc k"] that by (simp add: matches_at_Cons_Suc)
    with l show ?R by auto
  next
    assume r: ?R
    show ?L
    proof (intro allI impI)
      fix k assume "k \<le> length (t # ts)"
      with r show "matches_at u ic r (t # ts) k = None"
        by (cases k) (auto simp: matches_at_Cons_Suc)
    qed
  qed
  show ?case
    unfolding split using Cons.IH
    by (cases "match_here u ic r (t # ts) (t # ts) (t # ts)") (simp_all add: matches_at_def)
qed

lemma first_match_Some_iff:
  "first_match u ic r s = Some g \<longleftrightarrow>
     (\<exists>k \<le> length s. matches_at u ic r s k = Some g \<and> (\<forall>j < k. matches_at u ic r s j = None))"
proof (induction s)
  case Nil
  show ?case by (auto simp: matches_at_def)
next
  case (Cons t ts)
  show ?case
  proof (cases "match_here u ic r (t # ts) (t # ts) (t # ts)")
    case (Some m)
    then have here: "matches_at u ic r (t # ts) 0 = Some (group1 m)"
      by (simp add: matches_at_def)
    have "(\<exists>k \<le> length (t # ts). matches_at u ic r (t # ts) k = Some g \<and>
        (\<forall>j < k. matches_at u ic r (t # ts) j = None)) \<longleftrightarrow> g = group1 m"
    proof
      assume "\<exists>k \<le> length (t # ts). matches_at u ic r (t # ts) k = Some g \<and>
        (\<forall>j < k. matches_at u ic r (t # ts) j = None)"
      then obtain k where k: "matches_at u ic r (t # ts) k = Some g"
        "\<forall>j < k. matches_at u ic r (t # ts) j = None" by blast
      with here have "k = 0" by (cases k) auto
      with k here show "g = group1 m" by simp
    next
      assume "g = group1 m"
      with here show "\<exists>k \<le> length (t # ts). matches_at u ic r (t # ts) k = Some g \<and>
        (\<forall>j < k. matches_at u ic r (t # ts) j = None)"
        by (intro exI [of _ 0]) simp
    qed
    with Some show ?thesis by auto
  next
    case None
    then have here: "matches_at u ic r (t # ts) 0 = None"
      by (simp add: matches_at_def)
    have "(\<exists>k \<le> length (t # ts). matches_at u ic r (t # ts) k = Some g \<and>
        (\<forall>j < k. matches_at u ic r (t # ts) j = None)) \<longleftrightarrow>
      (\<exists>k \<le> length ts. matches_at u ic r ts k = Some g \<and>
        (\<forall>j < k. matches_at u ic r ts j = None))" (is "?L \<longleftrightarrow> ?R")
    proof
      assume ?L
      then obtain k where k: "k \<le> length (t # ts)" "matches_at u ic r (t # ts) k = Some g"
        "\<forall>j < k. matches_at u ic r (t # ts) j = None" by blast
      with here obtain k' where k': "k = Suc k'" by (cases k) auto
      have "matches_at u ic r ts j = None" if "j < k'" for j
        using k(3) [rule_format, of "Suc j"] that k' by (simp add: matches_at_Cons_Suc)
      with k k' show ?R
        by (intro exI [of _ k']) (simp add: matches_at_Cons_Suc)
    next
      assume ?R
      then obtain k where k: "k \<le> length ts" "matches_at u ic r ts k = Some g"
        "\<forall>j < k. matches_at u ic r ts j = None" by blast
      have "matches_at u ic r (t # ts) j = None" if "j < Suc k" for j
        using that k(3) here by (cases j) (auto simp: matches_at_Cons_Suc)
      with k show ?L
        by (intro exI [of _ "Suc k"]) (simp add: matches_at_Cons_Suc)
    qed
    with None Cons.IH show ?thesis by simp
  qed
qed

text \<open>
  \<^bold>\<open>C9.\<close>  The matcher tries the receipt-number pattern, then the \<open>FCR NO\<close> pattern, then
  the Arabic pattern, each with \<open>re.IGNORECASE\<close>.  Its result is the group of the leftmost
  match of the first of the three that matches anywhere in the text; a later pattern
  counts only when every earlier one has no match, and the result is \<open>None\<close> when none
  of the three matches.
\<close>

theorem identifier_matcher_priority:
  "search_patterns u patterns text =
     (case first_match u True (patterns ! 0) text of
        Some g \<Rightarrow> Some g
      | None \<Rightarrow>
          (case first_match u True (patterns ! 1) text of
             Some g \<Rightarrow> Some g
           | None \<Rightarrow> first_match u True (patterns ! 2) text))"
proof -
  obtain p0 p1 p2 where ps: "patterns = [p0, p1, p2]"
    by (simp add: patterns_def)
  show ?thesis
    by (simp add: ps first_match_findall split: list.splits)
qed

text \<open>
  A text in which the \<open>FCR NO\<close> label comes first and the receipt label later, both in
  lower or mixed case: the receipt number wins.
\<close>

theorem identifier_matcher_priority_witness:
  "search_patterns ascii_db patterns (str ''fcr no: x1 Receipt No. ab12('') = Some (str ''ab12('') \<and>
   first_match ascii_db True (patterns ! 0) (str ''fcr no: x1 Receipt No. ab12('') =
     Some (str ''ab12('') \<and>
   first_match ascii_db True (patterns ! 1) (str ''fcr no: x1 Receipt No. ab12('') =
     Some (str ''x1'')"
  using identifier_matcher_priority [of ascii_db "str ''fcr no: x1 Receipt No. ab12(''"]
  by (simp add: pattern_simps class_simps)

section \<open>File names\<close>

lemma re_sub_one_class:
  "re_sub u ic [One a] repl s = concat (map (\<lambda>c. if atom_match u ic a c then repl else [c]) s)"
  by (induction s) auto

lemma clean_fcr_num_map:
  "clean_fcr_num u s = map (\<lambda>c. if safe_char u c then c else 95) s"
proof -
  have "atom_match u False (Not_in_set [Cat_word, Ch 45, Ch 95, Ch 46, Ch 32]) c \<longleftrightarrow>
      \<not> safe_char u c" for c
    by (auto simp: safe_char_def literal_match_def)
  then show ?thesis
    by (simp add: clean_fcr_num_def re_sub_one_class str_def) (induction s; simp)
qed

text \<open>
  \<^bold>\<open>C8.\<close>  The file name of an identifier is \<open>FCR_\<close>, the identifier with every character
  outside the safe set (word characters, hyphen, underscore, period, space) replaced by
  an underscore (code point 95), and \<open>.pdf\<close>.  The identifier \<open>AB/12(3)\<close> gives
  \<open>FCR_AB_12_3_.pdf\<close>.
\<close>

theorem file_name_sanitized:
  "file_name u fcr_num =
     str ''FCR_'' @ map (\<lambda>c. if safe_char u c then c else 95) fcr_num @ str ''.pdf'' \<and>
   file_name u (str ''AB/12(3)'') = str ''FCR_AB_12_3_.pdf''"
  by (simp add: file_name_def clean_fcr_num_map) (simp add: str_def safe_char_def is_word_def)

theorem file_name_sanitized_witness:
  "file_name ascii_db (str ''X-1.5 (b)+'') = str ''FCR_X-1.5 _b__.pdf''"
  using file_name_sanitized [of ascii_db "str ''X-1.5 (b)+''"]
  by (simp add: str_def safe_char_def is_word_def)

section \<open>Text extraction\<close>

text \<open>
  \<^bold>\<open>C6.\<close>  Whichever step fails (reading the text layer, writing the temporary file,
  rasterising, recognising), \<open>extract_text_from_page\<close> returns the empty string and
  shows one message made of the failure's text; nothing is raised to the caller.
\<close>

theorem extract_text_never_raises:
  "(extract_text p = Inl (Exception m) \<longrightarrow>
      extract_text_from_page p = ([], [St_error (str ''Error extracting text: '' @ m)])) \<and>
   (extract_text p = Inr t \<and> strip t = [] \<and> write_temp p = Some (Exception m) \<longrightarrow>
      extract_text_from_page p = ([], [St_error (str ''Error extracting text: '' @ m)])) \<and>
   (extract_text p = Inr t \<and> strip t = [] \<and> write_temp p = None \<and>
    convert_from_path p 300 ''jpeg'' = Inl (Exception m) \<longrightarrow>
      extract_text_from_page p =
        ([], [Call_convert_from_path 300 ''jpeg'',
              St_error (str ''Error extracting text: '' @ m)])) \<and>
   (extract_text p = Inr t \<and> strip t = [] \<and> write_temp p = None \<and>
    convert_from_path p 300 ''jpeg'' = Inr (img # imgs) \<and>
    image_to_string p img ''eng+ara'' = Inl (Exception m) \<longrightarrow>
      extract_text_from_page p =
        ([], [Call_convert_from_path 300 ''jpeg'', Call_image_to_string img ''eng+ara'',
              St_error (str ''Error extracting text: '' @ m)]))"
  by (simp add: extract_text_from_page_def on_exception_def)

theorem extract_text_never_raises_witness:
  "extract_text_from_page (failing_page 0) =
     ([], [St_error (str ''Error extracting text: parse'')]) \<and>
   extract_text_from_page (failing_page 1) =
     ([], [St_error (str ''Error extracting text: disk'')]) \<and>
   extract_text_from_page (failing_page 2) =
     ([], [Call_convert_from_path 300 ''jpeg'',
           St_error (str ''Error extracting text: poppler'')]) \<and>
   extract_text_from_page (failing_page 3) =
     ([], [Call_convert_from_path 300 ''jpeg'', Call_image_to_string 7 ''eng+ara'',
           St_error (str ''Error extracting text: tesseract'')])"
  using extract_text_never_raises [where p = "failing_page 0" and m = "str ''parse''"]
    extract_text_never_raises
      [where p = "failing_page 1" and t = "str '' ''" and m = "str ''disk''"]
    extract_text_never_raises
      [where p = "failing_page 2" and t = "str '' ''" and m = "str ''poppler''"]
    extract_text_never_raises
      [where p = "failing_page 3" and t = "str '' ''" and m = "str ''tesseract''"
        and img = 7 and imgs = "[]"]
  by (simp add: failing_page_def strip_def str_def isspace_def)

text \<open>
  \<^bold>\<open>C7\<close>, as the code has it.  A text layer that is not blank is returned as it is, and
  neither the rasteriser nor the recogniser is called.  When the text layer is blank the
  page is written out and rasterised at 300 DPI; the first image is recognised with
  \<open>eng+ara\<close> and the recognised text is returned; when the rasteriser returns no image,
  the result is the empty string and the recogniser is not called.
\<close>

theorem direct_text_or_ocr_fallback:
  "(extract_text p = Inr t \<and> strip t \<noteq> [] \<longrightarrow> extract_text_from_page p = (t, [])) \<and>
   (extract_text p = Inr t \<and> strip t = [] \<and> write_temp p = None \<and>
    convert_from_path p 300 ''jpeg'' = Inr (img # imgs) \<and>
    image_to_string p img ''eng+ara'' = Inr recognised \<longrightarrow>
      extract_text_from_page p =
        (recognised,
         [Call_convert_from_path 300 ''jpeg'', Call_image_to_string img ''eng+ara''])) \<and>
   (extract_text p = Inr t \<and> strip t = [] \<and> write_temp p = None \<and>
    convert_from_path p 300 ''jpeg'' = Inr [] \<longrightarrow>
      extract_text_from_page p = ([], [Call_convert_from_path 300 ''jpeg'']))"
  by (auto simp: extract_text_from_page_def strip_Nil)

theorem direct_text_or_ocr_fallback_witness:
  "extract_text_from_page (text_page (str '' FCR NO: A1 '')) = (str '' FCR NO: A1 '', []) \<and>
   extract_text_from_page (scanned_page (str '' '') (str ''FCR NO: B2'')) =
     (str ''FCR NO: B2'',
      [Call_convert_from_path 300 ''jpeg'', Call_image_to_string 7 ''eng+ara'']) \<and>
   extract_text_from_page no_image_page = ([], [Call_convert_from_path 300 ''jpeg''])"
  using direct_text_or_ocr_fallback
      [where p = "text_page (str '' FCR NO: A1 '')" and t = "str '' FCR NO: A1 ''"]
    direct_text_or_ocr_fallback
      [where p = "scanned_page (str '' '') (str ''FCR NO: B2'')" and t = "str '' ''"
        and img = 7 and imgs = "[]" and recognised = "str ''FCR NO: B2''"]
    direct_text_or_ocr_fallback [where p = no_image_page and t = "str '' ''"]
  by (simp add: text_page_def scanned_page_def no_image_page_def strip_def str_def isspace_def)

text \<open>
  The text layer of \<open>no_image_page\<close> is one space and the recogniser would return a text
  for any image, but the rasteriser returns no image: the recogniser is never called and
  the page's text is empty.
\<close>

theorem ocr_fallback_counterexample:
  "extract_text no_image_page = Inr (str '' '') \<and> strip (str '' '') = [] \<and>
   image_to_string no_image_page 7 ''eng+ara'' = Inr (str ''FCR NO: Z9'') \<and>
   fst (extract_text_from_page no_image_page) = [] \<and>
   \<not> list_ex is_ocr_call (snd (extract_text_from_page no_image_page))"
  by (simp add: page_simps str_def isspace_def is_ocr_call_def)

section \<open>The range segmenter\<close>

subsection \<open>The dictionary and the loop body\<close>

lemma set_dict_set:
  "distinct (map fst d) \<Longrightarrow> set (dict_set k v d) = insert (k, v) {e \<in> set d. fst e \<noteq> k}"
  by (induction k v d rule: dict_set.induct) (auto simp: image_iff)

lemma dict_set_keys:
  "map fst (dict_set k v d) = (if k \<in> fst ` set d then map fst d else map fst d @ [k])"
  by (induction k v d rule: dict_set.induct) (auto simp: image_iff)

lemma dict_set_fresh: "k \<notin> fst ` set d \<Longrightarrow> dict_set k v d = d @ [(k, v)]"
  by (induction k v d rule: dict_set.induct) (auto simp: image_iff)

lemma distinct_dict_set: "distinct (map fst d) \<Longrightarrow> distinct (map fst (dict_set k v d))"
  by (simp add: dict_set_keys)

lemma well_ranged_mono: "well_ranged m R \<Longrightarrow> m \<le> n \<Longrightarrow> well_ranged n R"
  by (fastforce simp: well_ranged_def)

lemma well_ranged_dict_set:
  "distinct (map fst R) \<Longrightarrow> well_ranged m R \<Longrightarrow> 0 \<le> a \<Longrightarrow> a \<le> b \<Longrightarrow> b < n \<Longrightarrow> m \<le> n \<Longrightarrow>
   well_ranged n (dict_set c (a, b) R)"
  by (fastforce simp: well_ranged_def set_dict_set)

lemma disjoint_dict_set:
  "distinct (map fst R) \<Longrightarrow> disjoint_ranges R \<Longrightarrow> well_ranged m R \<Longrightarrow> m \<le> a \<Longrightarrow>
   disjoint_ranges (dict_set c (a, b) R)"
  unfolding disjoint_ranges_def well_ranged_def
  by (simp add: set_dict_set) fastforce

lemma well_ranged_Nil [simp]: "well_ranged n []"
  by (simp add: well_ranged_def)

lemma disjoint_ranges_Nil [simp]: "disjoint_ranges []"
  by (simp add: disjoint_ranges_def)

lemma page_text_observed: "page_text p = [] \<Longrightarrow> observed u p = None"
  by (simp add: observed_def)

lemma visit_page_skip:
  assumes "page_text p = []"
  shows "fcr_ranges (visit_page u n i p s) = fcr_ranges s"
    and "current_fcr (visit_page u n i p s) = current_fcr s"
    and "start_page (visit_page u n i p s) = start_page s"
  using assms by (auto simp: visit_page_def page_text_def split: prod.splits)

lemma visit_page_keep:
  assumes "page_text p \<noteq> []" "observed u p = None \<or> observed u p = current_fcr s"
  shows "fcr_ranges (visit_page u n i p s) =
           (case current_fcr s of
              Some c \<Rightarrow> if i = n - 1 then dict_set c (start_page s, i) (fcr_ranges s) else fcr_ranges s
            | None \<Rightarrow> fcr_ranges s)"
    and "current_fcr (visit_page u n i p s) = current_fcr s"
    and "start_page (visit_page u n i p s) = start_page s"
  using assms
  by (auto simp: visit_page_def page_text_def observed_def truthy_def Let_def
      split: prod.splits option.splits if_splits)

lemma visit_page_change:
  assumes "observed u p = Some f" "current_fcr s \<noteq> Some f"
  shows "fcr_ranges (visit_page u n i p s) =
           (let r1 = (case current_fcr s of
                        None \<Rightarrow> fcr_ranges s
                      | Some c \<Rightarrow> dict_set c (start_page s, i - 1) (fcr_ranges s))
            in if i = n - 1 then dict_set f (i, i) r1 else r1)"
    and "current_fcr (visit_page u n i p s) = Some f"
    and "start_page (visit_page u n i p s) = i"
  using assms
  by (auto simp: visit_page_def page_text_def observed_def truthy_def Let_def
      split: prod.splits option.splits if_splits)

lemma visit_page_cases:
  "page_text p = [] \<or>
   (page_text p \<noteq> [] \<and> (observed u p = None \<or> observed u p = current_fcr s)) \<or>
   (\<exists>f. page_text p \<noteq> [] \<and> observed u p = Some f \<and> current_fcr s \<noteq> Some f)"
  using page_text_observed [of p u] by (cases "observed u p") auto

lemma seg_inv_step:
  assumes "seg_inv i s" "0 \<le> i" "i \<noteq> n - 1"
  shows "seg_inv (i + 1) (visit_page u n i p s)"
proof -
  consider (skip) "page_text p = []"
    | (keep) "page_text p \<noteq> []" "observed u p = None \<or> observed u p = current_fcr s"
    | (change) f where "observed u p = Some f" "current_fcr s \<noteq> Some f"
    using visit_page_cases [of p u s] by blast
  then show ?thesis
  proof cases
    case skip
    with assms show ?thesis
      by (auto simp: seg_inv_def visit_page_skip split: option.splits)
  next
    case keep
    with assms show ?thesis
      by (auto simp: seg_inv_def visit_page_keep split: option.splits)
  next
    case change
    with assms show ?thesis
      by (auto simp: seg_inv_def visit_page_change distinct_dict_set disjoint_dict_set
          intro: well_ranged_dict_set split: option.splits)
  qed
qed

lemma closed_ranges_post:
  assumes "seg_inv i s" "0 \<le> i"
  shows "range_post i (case current_fcr s of
                   None \<Rightarrow> fcr_ranges s
                 | Some c \<Rightarrow> dict_set c (start_page s, i - 1) (fcr_ranges s))"
  using assms
  by (auto simp: range_post_def seg_inv_def distinct_dict_set
      intro: disjoint_dict_set well_ranged_dict_set split: option.splits)

lemma seg_inv_last:
  assumes "seg_inv i s" "0 \<le> i"
  shows "range_post (i + 1) (fcr_ranges (visit_page u (i + 1) i p s))"
proof -
  consider (skip) "page_text p = []"
    | (keep) "page_text p \<noteq> []" "observed u p = None \<or> observed u p = current_fcr s"
    | (change) f where "observed u p = Some f" "current_fcr s \<noteq> Some f"
    using visit_page_cases [of p u s] by blast
  then show ?thesis
  proof cases
    case skip
    with assms show ?thesis
      by (auto simp: range_post_def seg_inv_def visit_page_skip well_ranged_def split: option.splits)
  next
    case keep
    with assms show ?thesis
      by (auto simp: range_post_def seg_inv_def visit_page_keep distinct_dict_set disjoint_dict_set
          intro: well_ranged_dict_set split: option.splits)
  next
    case change
    define r1 where "r1 = (case current_fcr s of
        None \<Rightarrow> fcr_ranges s
      | Some c \<Rightarrow> dict_set c (start_page s, i - 1) (fcr_ranges s))"
    from assms(1,2) have r1: "range_post i r1"
      unfolding r1_def by (rule closed_ranges_post)
    from change have "fcr_ranges (visit_page u (i + 1) i p s) = dict_set f (i, i) r1"
      by (simp add: visit_page_change r1_def)
    with r1 assms show ?thesis
      by (auto simp: range_post_def distinct_dict_set intro: disjoint_dict_set well_ranged_dict_set)
  qed
qed

lemma visit_pages_post:
  "seg_inv i s \<Longrightarrow> 0 \<le> i \<Longrightarrow> i + int (length ps) = n \<Longrightarrow> ps \<noteq> [] \<Longrightarrow>
   range_post n (fcr_ranges (visit_pages u n i ps s))"
proof (induction ps arbitrary: i s)
  case Nil
  then show ?case by simp
next
  case (Cons p ps)
  show ?case
  proof (cases ps)
    case Nil
    with Cons.prems seg_inv_last [of i s u p] show ?thesis
      by auto
  next
    case (Cons q qs)
    with Cons.prems have "i \<noteq> n - 1" by simp
    from seg_inv_step [OF Cons.prems(1,2) this] Cons.IH [of "i + 1"] Cons.prems Cons
    show ?thesis by simp
  qed
qed

lemma find_fcr_ranges_post: "range_post (int (length pages)) (find_fcr_ranges u pages)"
proof (cases pages)
  case Nil
  then show ?thesis
    by (simp add: find_fcr_ranges_def initial_def range_post_def disjoint_ranges_def well_ranged_def)
next
  case (Cons p ps)
  have "seg_inv 0 initial"
    by (simp add: seg_inv_def initial_def disjoint_ranges_def)
  from visit_pages_post [OF this, of pages "int (length pages)" u] Cons
  show ?thesis by (simp add: find_fcr_ranges_def)
qed


text \<open>
  \<^bold>\<open>C2.\<close>  In the map returned for any document every range has its start at or
  before its end, and no page number lies in the ranges of two different identifiers.
\<close>

theorem ranges_ordered_and_disjoint:
  "(\<forall>(k, a, b) \<in> set (find_fcr_ranges u pages). a \<le> b) \<and>
   (\<forall>e1 \<in> set (find_fcr_ranges u pages). \<forall>e2 \<in> set (find_fcr_ranges u pages).
      fst e1 \<noteq> fst e2 \<longrightarrow> (\<forall>i. \<not> (in_range i e1 \<and> in_range i e2)))"
  using find_fcr_ranges_post [of pages u]
  unfolding range_post_def well_ranged_def disjoint_ranges_def in_range_def
  by fastforce

theorem ranges_ordered_and_disjoint_witness:
  "find_fcr_ranges ascii_db scenario_a = [(str ''X'', (0, 1)), (str ''Y'', (2, 4))] \<and>
   \<not> (in_range 1 (str ''X'', (0, 1)) \<and> in_range 1 (str ''Y'', (2, 4)))"
  using ranges_ordered_and_disjoint [of ascii_db scenario_a]
  by (simp add: scenario_a_def segment_simps page_simps pattern_simps class_simps in_range_def)

lemma observed_text_page_A: "observed u (text_page (str ''FCR NO: A'')) = Some (str ''A'')"
  by (simp add: observed_def page_text_def page_simps pattern_simps class_simps)

lemma observed_text_page_B: "observed u (text_page (str ''FCR NO: B'')) = Some (str ''B'')"
  by (simp add: observed_def page_text_def page_simps pattern_simps class_simps)

text \<open>
  \<^bold>\<open>C4.\<close>  Three pages on which the identifiers \<open>a\<close>, \<open>b\<close>, \<open>a\<close> are detected, with \<open>a\<close>
  and \<open>b\<close> different: the map is \<open>a \<mapsto> (2, 2)\<close>, \<open>b \<mapsto> (1, 1)\<close>, in this order.  The
  range \<open>(0, 0)\<close> first written for \<open>a\<close> is replaced where it stood, and page 0 is in no
  range.
\<close>

theorem reappearing_identifier_overwrites:
  assumes "observed u p0 = Some a" "observed u p1 = Some b" "observed u p2 = Some a" "a \<noteq> b"
  shows "find_fcr_ranges u [p0, p1, p2] = [(a, (2, 2)), (b, (1, 1))] \<and>
         \<not> covered (find_fcr_ranges u [p0, p1, p2]) 0"
proof -
  let ?s1 = "visit_page u 3 0 p0 initial"
  let ?s2 = "visit_page u 3 1 p1 ?s1"
  let ?s3 = "visit_page u 3 2 p2 ?s2"
  have s1: "fcr_ranges ?s1 = []" "current_fcr ?s1 = Some a" "start_page ?s1 = 0"
    using assms by (simp_all add: visit_page_change initial_def)
  have s2: "fcr_ranges ?s2 = [(a, (0, 0))]" "current_fcr ?s2 = Some b" "start_page ?s2 = 1"
    using assms s1 by (simp_all add: visit_page_change)
  have s3: "fcr_ranges ?s3 = [(a, (2, 2)), (b, (1, 1))]"
    using assms s2 by (simp add: visit_page_change)
  then show ?thesis
    by (simp add: find_fcr_ranges_def covered_def in_range_def)
qed

theorem reappearing_identifier_overwrites_witness:
  "find_fcr_ranges ascii_db scenario_c = [(str ''A'', (2, 2)), (str ''B'', (1, 1))] \<and>
   \<not> covered (find_fcr_ranges ascii_db scenario_c) 0"
  using reappearing_identifier_overwrites [of ascii_db "text_page (str ''FCR NO: A'')" "str ''A''"
      "text_page (str ''FCR NO: B'')" "str ''B''" "text_page (str ''FCR NO: A'')"]
  by (simp add: observed_text_page_A observed_text_page_B scenario_c_def)
    (simp add: str_def covered_def in_range_def)

subsection \<open>Documents in which no identifier comes back\<close>

lemma ascending_snoc:
  "ascending (R @ [(c, a, b)]) \<longleftrightarrow> ascending R \<and> (\<forall>e \<in> set R. snd (snd e) < a)"
  by (auto simp: ascending_def sorted_wrt_append)

lemma ascending_Nil [simp]: "ascending []"
  by (simp add: ascending_def)

lemma well_ranged_ends: "well_ranged m R \<Longrightarrow> e \<in> set R \<Longrightarrow> snd (snd e) < m"
  by (auto simp: well_ranged_def)

lemma ascending_dict_set_fresh:
  "ascending R \<Longrightarrow> well_ranged m R \<Longrightarrow> m \<le> a \<Longrightarrow> c \<notin> fst ` set R \<Longrightarrow>
   ascending (dict_set c (a, b) R)"
  by (fastforce simp: dict_set_fresh ascending_snoc dest: well_ranged_ends)

lemma keys_dict_set: "fst ` set (dict_set k v d) = insert k (fst ` set d)"
  by (induction k v d rule: dict_set.induct) auto

lemma detections_None: "observed u p = None \<Longrightarrow> detections u (p # ps) = detections u ps"
  by simp

lemma detections_Some: "observed u p = Some f \<Longrightarrow> detections u (p # ps) = f # detections u ps"
  by simp

lemma strong_inv_step:
  assumes "strong_inv u i s (p # ps)" "0 \<le> i" "i \<noteq> n - 1"
  shows "strong_inv u (i + 1) (visit_page u n i p s) ps"
proof -
  from assms have inv: "seg_inv (i + 1) (visit_page u n i p s)"
    by (simp add: strong_inv_def seg_inv_step)
  consider (skip) "page_text p = []"
    | (keep) "page_text p \<noteq> []" "observed u p = None \<or> observed u p = current_fcr s"
    | (change) f where "observed u p = Some f" "current_fcr s \<noteq> Some f"
    using visit_page_cases [of p u s] by blast
  then show ?thesis
  proof cases
    case skip
    then have "observed u p = None" by (rule page_text_observed)
    with assms skip inv show ?thesis
      by (auto simp: strong_inv_def visit_page_skip split: option.splits)
  next
    case keep
    with assms inv show ?thesis
      by (auto simp: strong_inv_def visit_page_keep split: option.splits)
  next
    case change
    show ?thesis
    proof (cases "current_fcr s")
      case None
      with assms change inv show ?thesis
        by (auto simp: strong_inv_def visit_page_change seg_inv_def)
    next
      case (Some c)
      with change have cf: "c \<noteq> f" by simp
      from assms Some have fresh: "c \<notin> fst ` set (fcr_ranges s)"
        and wr: "well_ranged (start_page s) (fcr_ranges s)"
        and asc: "ascending (fcr_ranges s)"
        and keys: "fst ` set (fcr_ranges s) \<inter> set (f # detections u ps) = {}"
        and dist: "distinct (remdups_adj (c # f # detections u ps))"
        using change by (auto simp: strong_inv_def seg_inv_def)
      from dist cf have c_dead: "c \<notin> set (detections u ps)" and d': "distinct (remdups_adj (f # detections u ps))"
        by auto
      have R': "fcr_ranges (visit_page u n i p s) = dict_set c (start_page s, i - 1) (fcr_ranges s)"
        and c': "current_fcr (visit_page u n i p s) = Some f"
        using change Some assms(3) by (simp_all add: visit_page_change)
      from asc wr fresh have "ascending (dict_set c (start_page s, i - 1) (fcr_ranges s))"
        by (auto intro: ascending_dict_set_fresh)
      with inv R' c' keys c_dead d' cf show ?thesis
        by (auto simp: strong_inv_def keys_dict_set)
    qed
  qed
qed




lemma strong_inv_initial: "no_reappearance u pages \<Longrightarrow> strong_inv u 0 initial pages"
  by (simp add: strong_inv_def seg_inv_def initial_def no_reappearance_def)


lemma covered_append: "covered (R @ S) j \<longleftrightarrow> covered R j \<or> covered S j"
  by (auto simp: covered_def)

lemma covered_Cons: "covered (e # R) j \<longleftrightarrow> in_range j e \<or> covered R j"
  by (auto simp: covered_def)

lemma covered_Nil: "\<not> covered [] j"
  by (simp add: covered_def)

lemmas covered_simps = covered_append covered_Cons covered_Nil

lemma gap_free_step:
  assumes "strong_inv u i s (p # ps)" "gap_free f s" "0 \<le> i" "i \<noteq> n - 1"
  shows "gap_free f (visit_page u n i p s)"
proof -
  consider (skip) "page_text p = []"
    | (keep) "page_text p \<noteq> []" "observed u p = None \<or> observed u p = current_fcr s"
    | (change) g where "observed u p = Some g" "current_fcr s \<noteq> Some g"
    using visit_page_cases [of p u s] by blast
  then show ?thesis
  proof cases
    case skip
    with assms show ?thesis by (simp add: gap_free_def visit_page_skip)
  next
    case keep
    with assms show ?thesis
      by (auto simp: gap_free_def visit_page_keep split: option.splits)
  next
    case change
    from assms obtain c where c: "current_fcr s = Some c"
      by (auto simp: gap_free_def)
    with assms have fresh: "c \<notin> fst ` set (fcr_ranges s)" and st: "start_page s < i"
      by (auto simp: strong_inv_def seg_inv_def)
    from change c assms(4)
    have "fcr_ranges (visit_page u n i p s) = fcr_ranges s @ [(c, (start_page s, i - 1))]"
      and "start_page (visit_page u n i p s) = i"
      and "current_fcr (visit_page u n i p s) = Some g"
      by (simp_all add: visit_page_change dict_set_fresh [OF fresh])
    with assms(2) st show ?thesis
      by (auto simp: gap_free_def covered_simps in_range_def)
  qed
qed

lemma gap_free_last:
  assumes "strong_inv u i s [p]" "gap_free f s" "0 \<le> i" "page_text p \<noteq> []"
  shows "\<forall>j. f \<le> j \<and> j \<le> i \<longrightarrow> covered (fcr_ranges (visit_page u (i + 1) i p s)) j"
proof -
  from assms obtain c where c: "current_fcr s = Some c"
    by (auto simp: gap_free_def)
  with assms have fresh: "c \<notin> fst ` set (fcr_ranges s)" and st: "start_page s < i"
    by (auto simp: strong_inv_def seg_inv_def)
  consider (keep) "observed u p = None \<or> observed u p = current_fcr s"
    | (change) g where "observed u p = Some g" "current_fcr s \<noteq> Some g"
    using visit_page_cases [of p u s] assms(4) by blast
  then show ?thesis
  proof cases
    case keep
    with assms(4) c
    have "fcr_ranges (visit_page u (i + 1) i p s) = fcr_ranges s @ [(c, (start_page s, i))]"
      by (simp add: visit_page_keep dict_set_fresh [OF fresh])
    with assms(2) st show ?thesis
      by (auto simp: gap_free_def covered_simps in_range_def)
  next
    case change
    with assms c have g: "g \<notin> fst ` set (fcr_ranges s)" "g \<noteq> c"
      by (auto simp: strong_inv_def)
    with change c
    have "fcr_ranges (visit_page u (i + 1) i p s) =
        (fcr_ranges s @ [(c, (start_page s, i - 1))]) @ [(g, (i, i))]"
      by (simp add: visit_page_change dict_set_fresh [OF fresh] dict_set_fresh)
    with assms(2) st show ?thesis
      by (auto simp: gap_free_def covered_simps in_range_def)
  qed
qed

lemma visit_pages_gap_free:
  "strong_inv u i s ps \<Longrightarrow> gap_free f s \<Longrightarrow> 0 \<le> i \<Longrightarrow> i + int (length ps) = n \<Longrightarrow>
   ps \<noteq> [] \<Longrightarrow> page_text (last ps) \<noteq> [] \<Longrightarrow>
   \<forall>j. f \<le> j \<and> j < n \<longrightarrow> covered (fcr_ranges (visit_pages u n i ps s)) j"
proof (induction ps arbitrary: i s)
  case Nil
  then show ?case by simp
next
  case (Cons p ps)
  show ?case
  proof (cases ps)
    case Nil
    with Cons.prems gap_free_last [of u i s p f] show ?thesis
      by auto
  next
    case (Cons q qs)
    with Cons.prems have ne: "i \<noteq> n - 1" by simp
    from strong_inv_step [OF Cons.prems(1,3) ne] gap_free_step [OF Cons.prems(1,2,3) ne]
      Cons.IH [of "i + 1"] Cons.prems Cons
    show ?thesis by simp
  qed
qed

lemma visit_pages_first_detected:
  "strong_inv u i s ps \<Longrightarrow> current_fcr s = None \<Longrightarrow> 0 \<le> i \<Longrightarrow> i + int (length ps) = n \<Longrightarrow>
   ps \<noteq> [] \<Longrightarrow> page_text (last ps) \<noteq> [] \<Longrightarrow> first_detected u i ps = Some f \<Longrightarrow>
   \<forall>j. f \<le> j \<and> j < n \<longrightarrow> covered (fcr_ranges (visit_pages u n i ps s)) j"
proof (induction ps arbitrary: i s)
  case Nil
  then show ?case by simp
next
  case (Cons p ps)
  show ?case
  proof (cases "observed u p")
    case None
    with Cons.prems have fd: "first_detected u (i + 1) ps = Some f"
      by simp
    then have ps: "ps \<noteq> []" by auto
    with Cons.prems have ne: "i \<noteq> n - 1" by (cases ps) auto
    from None Cons.prems(2) have "current_fcr (visit_page u n i p s) = None"
      by (cases "page_text p = []") (simp_all add: visit_page_skip visit_page_keep)
    with strong_inv_step [OF Cons.prems(1,3) ne] Cons.IH [of "i + 1"] Cons.prems ps fd
    show ?thesis by simp
  next
    case (Some g)
    with Cons.prems have f: "f = i" by simp
    from Some Cons.prems(2) have ch: "current_fcr s \<noteq> Some g" by simp
    from Cons.prems have R: "fcr_ranges s = []"
      by (simp add: strong_inv_def seg_inv_def)
    show ?thesis
    proof (cases ps)
      case Nil
      with Cons.prems Some ch R f show ?thesis
        by (auto simp: visit_page_change covered_def in_range_def)
    next
      case (Cons q qs)
      with Cons.prems have ne: "i \<noteq> n - 1" by simp
      from Some ch ne Cons.prems(2) have "gap_free i (visit_page u n i p s)"
        by (auto simp: gap_free_def visit_page_change)
      with strong_inv_step [OF Cons.prems(1,3) ne]
        visit_pages_gap_free [of u "i + 1" "visit_page u n i p s" ps i n] Cons.prems Cons f
      show ?thesis by simp
    qed
  qed
qed


text \<open>
  \<^bold>\<open>C3\<close>, as the code has it.  When the text of the last page is not empty and no
  identifier comes back after another one was detected, every page of the document that
  is in no range of the returned map lies strictly before the first page with an
  identifier.
\<close>

theorem uncovered_pages_before_first_identifier:
  assumes "pages = [] \<or> page_text (last pages) \<noteq> []" and "no_reappearance u pages"
    and "0 \<le> j" "j < int (length pages)" "\<not> covered (find_fcr_ranges u pages) j"
  shows "case first_detected u 0 pages of None \<Rightarrow> True | Some f \<Rightarrow> j < f"
proof (cases "first_detected u 0 pages")
  case None
  then show ?thesis by simp
next
  case (Some f)
  from assms(3,4) have ne: "pages \<noteq> []" by auto
  with assms(1) have "page_text (last pages) \<noteq> []" by simp
  with visit_pages_first_detected [OF strong_inv_initial [OF assms(2)], of "int (length pages)" f]
    ne Some
  have cov: "\<forall>j. f \<le> j \<and> j < int (length pages) \<longrightarrow> covered (find_fcr_ranges u pages) j"
    by (simp add: find_fcr_ranges_def initial_def)
  have "\<not> f \<le> j"
  proof
    assume "f \<le> j"
    with cov assms(4) have "covered (find_fcr_ranges u pages) j" by blast
    with assms(5) show False by contradiction
  qed
  with Some show ?thesis by simp
qed

lemma observed_cover_sheet: "observed u (text_page (str ''cover sheet'')) = None"
  by (simp add: observed_def page_text_def page_simps pattern_simps class_simps)

theorem uncovered_pages_before_first_identifier_witness:
  "first_detected ascii_db 0 scenario_gap = Some 1 \<and>
   \<not> covered (find_fcr_ranges ascii_db scenario_gap) 0 \<and> (0 :: int) < 1"
proof -
  have obs: "first_detected ascii_db 0 scenario_gap = Some 1"
    "detections ascii_db scenario_gap = [str ''A'', str ''B'']"
    by (simp_all add: scenario_gap_def observed_cover_sheet observed_text_page_A
        observed_text_page_B)
  have R: "find_fcr_ranges ascii_db scenario_gap = [(str ''A'', (1, 1)), (str ''B'', (2, 2))]"
    by (simp add: scenario_gap_def segment_simps page_simps pattern_simps class_simps)
  have last_text: "page_text (last scenario_gap) \<noteq> []"
    by (simp add: scenario_gap_def page_text_def page_simps str_def isspace_def)
  have nr: "no_reappearance ascii_db scenario_gap"
    by (simp add: no_reappearance_def obs str_def)
  have unc: "\<not> covered (find_fcr_ranges ascii_db scenario_gap) 0"
    by (simp add: R covered_def in_range_def)
  have len: "(0 :: int) < int (length scenario_gap)"
    by (simp add: scenario_gap_def)
  from uncovered_pages_before_first_identifier [OF disjI2 [OF last_text] nr _ len unc]
  have "case first_detected ascii_db 0 scenario_gap of None \<Rightarrow> True | Some f \<Rightarrow> 0 < f"
    by simp
  with obs unc show ?thesis
    by simp
qed

text \<open>
  In the document with the identifiers A, B, A the first identifier is detected on page
  0, and page 0 is in no range: the range written for A on page 1 is replaced at the
  last page.
\<close>

theorem gap_at_start_counterexample:
  "first_detected ascii_db 0 scenario_c = Some 0 \<and>
   \<not> covered (find_fcr_ranges ascii_db scenario_c) 0 \<and>
   (0 :: int) < int (length scenario_c)"
proof -
  have "find_fcr_ranges ascii_db scenario_c = [(str ''A'', (2, 2)), (str ''B'', (1, 1))]"
    by (simp add: scenario_c_def segment_simps page_simps pattern_simps class_simps)
  then show ?thesis
    by (simp add: covered_def in_range_def) (simp add: scenario_c_def observed_text_page_A)
qed

lemma map_of_dict_set: "map_of (dict_set k v d) k = Some v"
  by (induction k v d rule: dict_set.induct) auto

text \<open>
  What the test for the last page does when it is reached: on a last page with a
  non-empty text, a range that is open after the page is written with the last page as
  its end.
\<close>

lemma last_page_closes_open_range:
  assumes "page_text p \<noteq> []" "current_fcr (visit_page u (i + 1) i p s) = Some c"
  shows "map_of (fcr_ranges (visit_page u (i + 1) i p s)) c =
           Some (start_page (visit_page u (i + 1) i p s), i)"
proof -
  consider (keep) "observed u p = None \<or> observed u p = current_fcr s"
    | (change) f where "observed u p = Some f" "current_fcr s \<noteq> Some f"
    using visit_page_cases [of p u s] assms(1) by blast
  then show ?thesis
  proof cases
    case keep
    with assms show ?thesis
      by (simp add: visit_page_keep map_of_dict_set)
  next
    case change
    with assms show ?thesis
      by (simp add: visit_page_change map_of_dict_set)
  qed
qed

text \<open>
  \<^bold>\<open>C1\<close> fails on the code.  A page whose text is empty is skipped before the test for
  the last page is reached, so a range that is open when the document ends with such a
  page is never written: the document of two pages below, the first with an identifier
  and the second with no text at all, gives the empty map.  With any non-empty text on
  the last page the range is closed at the last page.
\<close>

theorem open_range_lost_on_empty_last_page:
  "find_fcr_ranges u [text_page (str ''FCR NO: A1''), scanned_page [] []] = [] \<and>
   find_fcr_ranges u [text_page (str ''FCR NO: A1''), text_page (str ''no match'')] =
     [(str ''A1'', (0, 1))]"
  by (simp add: segment_simps page_simps pattern_simps class_simps)

section \<open>The splitter and the archive\<close>

lemma pages_get_inside:
  "0 \<le> i \<Longrightarrow> i < int (length pages) \<Longrightarrow> pages_get pages i = Inr (pages ! nat i)"
  by (simp add: pages_get_def)

lemma slice_rec: "a \<le> b \<Longrightarrow> slice pages a b = pages ! nat a # slice pages (a + 1) b"
  by (simp add: slice_def upto_rec1)

lemma slice_empty: "\<not> a \<le> b \<Longrightarrow> slice pages a b = []"
  by (simp add: slice_def)

lemma add_pages_slice:
  "0 \<le> a \<Longrightarrow> b < int (length pages) \<Longrightarrow>
   add_pages pages [a..b] writer = Inr (writer @ slice pages a b)"
proof (induction a b arbitrary: writer rule: upto.induct)
  case (1 i j)
  show ?case
  proof (cases "i \<le> j")
    case True
    with 1 have "add_pages pages [i + 1..j] (writer @ [pages ! nat i]) =
        Inr ((writer @ [pages ! nat i]) @ slice pages (i + 1) j)"
      by simp
    with True 1 show ?thesis
      by (simp add: upto_rec1 [of i j] pages_get_inside slice_rec)
  next
    case False
    then show ?thesis
      by (simp add: slice_empty)
  qed
qed

lemma split_entries_inside:
  "\<forall>(k, a, b) \<in> set ranges. 0 \<le> a \<and> b < int (length pages) \<Longrightarrow>
   split_entries u pages output_dir ranges st =
     Inr \<lparr>output_files =
            output_files st @
            map (\<lambda>(k, a, b). (file_name u k, (output_dir, file_name u k))) ranges,
          written =
            written st @
            map (\<lambda>(k, a, b). ((output_dir, file_name u k), slice pages a b)) ranges\<rparr>"
proof (induction ranges arbitrary: st)
  case Nil
  then show ?case by simp
next
  case (Cons e ranges)
  obtain k a b where e: "e = (k, a, b)" by (cases e) auto
  with Cons.prems have "0 \<le> a" "b < int (length pages)" by auto
  then have "add_pages pages [a..b] [] = Inr (slice pages a b)"
    using add_pages_slice [of a b pages "[]"] by simp
  with Cons e show ?case
    by (simp add: Let_def)
qed

lemma split_inside:
  "\<forall>(k, a, b) \<in> set ranges. 0 \<le> a \<and> b < int (length pages) \<Longrightarrow>
   split_pdf_by_fcr_ranges u pages ranges output_dir =
     Inr \<lparr>output_files = map (\<lambda>(k, a, b). (file_name u k, (output_dir, file_name u k))) ranges,
          written = map (\<lambda>(k, a, b). ((output_dir, file_name u k), slice pages a b)) ranges\<rparr>"
  by (simp add: split_pdf_by_fcr_ranges_def split_entries_inside)












lemma upto_values:
  "[0..0] = [0 :: int]" "[1..1] = [1 :: int]" "[2..2] = [2 :: int]" "[0..1] = [0, 1 :: int]"
  "[2..4] = [2, 3, 4 :: int]" "[0..2] = [0, 1, 2 :: int]" "[0..4] = [0, 1, 2, 3, 4 :: int]"
  by (simp_all add: upto_rec1)



lemma scenario_collision_ranges:
  "find_fcr_ranges u scenario_collision = [(str ''AB('', (0, 0)), (str ''AB)'', (1, 1))]"
  by (simp add: scenario_collision_def segment_simps page_simps pattern_simps class_simps)


lemma collision_names:
  "file_name u (str ''AB('') = str ''FCR_AB_.pdf''" "file_name u (str ''AB)'') = str ''FCR_AB_.pdf''"
  by (simp_all add: file_name_def clean_fcr_num_map str_def safe_char_def is_word_def)


subsection \<open>The files on disk\<close>








lemma create_zip_names:
  "\<forall>(fn, fp) \<in> set files. fp \<in> fst ` set disk \<Longrightarrow>
   \<exists>entries. create_zip disk files = Inr entries \<and> map fst entries = map fst files"
proof (induction files)
  case Nil
  then show ?case by simp
next
  case (Cons f files)
  obtain fn fp where f: "f = (fn, fp)" by (cases f) auto
  with Cons.prems have "fp \<in> fst ` set (rev disk)" by simp
  then obtain doc where "read_file disk fp = Some doc"
    unfolding read_file_def by (metis map_of_eq_None_iff not_Some_eq)
  moreover from Cons obtain entries
    where "create_zip disk files = Inr entries" "map fst entries = map fst files"
    by auto
  ultimately show ?case
    by (simp add: f)
qed

text \<open>
  \<^bold>\<open>C10.\<close>  For a map whose ranges lie in the document, the splitter returns one pair
  of file name and path per entry, in the order of the map, and writes one file per
  entry; nothing is removed when two identifiers have the same file name.  The archive
  made of the result has one entry per pair, under these names.
\<close>

theorem split_returns_one_pair_per_entry:
  assumes "\<forall>(k, a, b) \<in> set ranges. 0 \<le> a \<and> b < int (length pages)"
  shows "\<exists>st entries.
      split_pdf_by_fcr_ranges u pages ranges output_dir = Inr st \<and>
      output_files st = map (\<lambda>(k, a, b). (file_name u k, (output_dir, file_name u k))) ranges \<and>
      written st = map (\<lambda>(k, a, b). ((output_dir, file_name u k), slice pages a b)) ranges \<and>
      create_zip (written st) (output_files st) = Inr entries \<and>
      map fst entries = map (\<lambda>(k, a, b). file_name u k) ranges"
proof -
  let ?files = "map (\<lambda>(k, a, b). (file_name u k, (output_dir, file_name u k))) ranges"
  let ?disk = "map (\<lambda>(k, a, b). ((output_dir, file_name u k), slice pages a b)) ranges"
  have "\<forall>(fn, fp) \<in> set ?files. fp \<in> fst ` set ?disk"
    by (auto simp: image_iff split_def)
  from create_zip_names [OF this] obtain entries
    where "create_zip ?disk ?files = Inr entries" "map fst entries = map fst ?files"
    by blast
  moreover have "map fst ?files = map (\<lambda>(k, a, b). file_name u k) ranges"
    by (simp add: split_def comp_def)
  ultimately show ?thesis
    using split_inside [OF assms, of u output_dir] by simp
qed

text \<open>
  The identifiers \<open>AB(\<close> and \<open>AB)\<close> both give \<open>FCR_AB_.pdf\<close>: the splitter returns the name
  twice, the second write replaces the first file, and the archive gets two entries of
  this name, both with the second document.
\<close>

theorem split_returns_one_pair_per_entry_witness:
  "find_fcr_ranges ascii_db scenario_collision = [(str ''AB('', (0, 0)), (str ''AB)'', (1, 1))] \<and>
   split_pdf_by_fcr_ranges ascii_db scenario_collision
       (find_fcr_ranges ascii_db scenario_collision) (str ''out'') =
     Inr \<lparr>output_files =
            [(str ''FCR_AB_.pdf'', (str ''out'', str ''FCR_AB_.pdf'')),
             (str ''FCR_AB_.pdf'', (str ''out'', str ''FCR_AB_.pdf''))],
          written =
            [((str ''out'', str ''FCR_AB_.pdf''), [text_page (str ''RECEIPT NO: AB('')]),
             ((str ''out'', str ''FCR_AB_.pdf''), [text_page (str ''RECEIPT NO: AB)'')])]\<rparr> \<and>
   create_zip
       [((str ''out'', str ''FCR_AB_.pdf''), [text_page (str ''RECEIPT NO: AB('')]),
        ((str ''out'', str ''FCR_AB_.pdf''), [text_page (str ''RECEIPT NO: AB)'')])]
       [(str ''FCR_AB_.pdf'', (str ''out'', str ''FCR_AB_.pdf'')),
        (str ''FCR_AB_.pdf'', (str ''out'', str ''FCR_AB_.pdf''))] =
     Inr [(str ''FCR_AB_.pdf'', [text_page (str ''RECEIPT NO: AB)'')]),
          (str ''FCR_AB_.pdf'', [text_page (str ''RECEIPT NO: AB)'')])]"
proof -
  have inside: "\<forall>(k, a, b) \<in> set (find_fcr_ranges ascii_db scenario_collision).
      0 \<le> a \<and> b < int (length scenario_collision)"
    by (simp add: scenario_collision_ranges) (simp add: scenario_collision_def)
  have slices: "slice scenario_collision 0 0 = [text_page (str ''RECEIPT NO: AB('')]"
    "slice scenario_collision 1 1 = [text_page (str ''RECEIPT NO: AB)'')]"
    by (simp_all add: slice_def upto_values scenario_collision_def)
  from split_returns_one_pair_per_entry [OF inside, of ascii_db "str ''out''"]
  have "split_pdf_by_fcr_ranges ascii_db scenario_collision
       (find_fcr_ranges ascii_db scenario_collision) (str ''out'') =
     Inr \<lparr>output_files =
            [(str ''FCR_AB_.pdf'', (str ''out'', str ''FCR_AB_.pdf'')),
             (str ''FCR_AB_.pdf'', (str ''out'', str ''FCR_AB_.pdf''))],
          written =
            [((str ''out'', str ''FCR_AB_.pdf''), [text_page (str ''RECEIPT NO: AB('')]),
             ((str ''out'', str ''FCR_AB_.pdf''), [text_page (str ''RECEIPT NO: AB)'')])]\<rparr>"
    by (auto simp: scenario_collision_ranges collision_names slices)
  then show ?thesis
    by (simp add: scenario_collision_ranges read_file_def)
qed

end
